theory Spec2Isabelle
  imports Complex_Main "HOL-Library.Sublist"
begin

text \<open>
  The knowledge base and the report tables of the cybersecurity report generator
  (\<^verbatim>\<open>cyber/app3.py\<close>): the SQLite table of issues with its cached reader, the search,
  the JSON export and import, the findings master table, the texts of the finding pages
  and the name of the output file. Each function of the source is a function here; the
  table, the cache and the session state are passed explicitly, exceptions are values.
\<close>

section \<open>Python strings and values\<close>

text \<open>
  A string is a list of characters, each standing for the code point of that number:
  the strings modelled are those of code points below 256. On them \<^verbatim>\<open>str.lower\<close>
  works character by character and changes the letters A to Z and the capital letters
  of the upper half, 0xC0 to 0xDE without the multiplication sign 0xD7.
\<close>

definition upper_chars :: string where
  "upper_chars = ''ABCDEFGHIJKLMNOPQRSTUVWXYZ''"

definition lower_chars :: string where
  "lower_chars = ''abcdefghijklmnopqrstuvwxyz''"

definition latin1_upper :: string where
  "latin1_upper =
     [CHR 0xC0, CHR 0xC1, CHR 0xC2, CHR 0xC3, CHR 0xC4, CHR 0xC5, CHR 0xC6, CHR 0xC7,
      CHR 0xC8, CHR 0xC9, CHR 0xCA, CHR 0xCB, CHR 0xCC, CHR 0xCD, CHR 0xCE, CHR 0xCF,
      CHR 0xD0, CHR 0xD1, CHR 0xD2, CHR 0xD3, CHR 0xD4, CHR 0xD5, CHR 0xD6,
      CHR 0xD8, CHR 0xD9, CHR 0xDA, CHR 0xDB, CHR 0xDC, CHR 0xDD, CHR 0xDE]"

definition latin1_lower :: string where
  "latin1_lower =
     [CHR 0xE0, CHR 0xE1, CHR 0xE2, CHR 0xE3, CHR 0xE4, CHR 0xE5, CHR 0xE6, CHR 0xE7,
      CHR 0xE8, CHR 0xE9, CHR 0xEA, CHR 0xEB, CHR 0xEC, CHR 0xED, CHR 0xEE, CHR 0xEF,
      CHR 0xF0, CHR 0xF1, CHR 0xF2, CHR 0xF3, CHR 0xF4, CHR 0xF5, CHR 0xF6,
      CHR 0xF8, CHR 0xF9, CHR 0xFA, CHR 0xFB, CHR 0xFC, CHR 0xFD, CHR 0xFE]"

definition lower_char :: "char \<Rightarrow> char" where
  "lower_char c =
     (case map_of (zip (upper_chars @ latin1_upper) (lower_chars @ latin1_lower)) c of
        Some d \<Rightarrow> d
      | None \<Rightarrow> c)"

definition lower :: "string \<Rightarrow> string" where
  "lower s = map lower_char s"

text \<open>\<^verbatim>\<open>a in b\<close> on strings: \<open>a\<close> occurs in \<open>b\<close> as a contiguous substring.\<close>

fun str_in :: "string \<Rightarrow> string \<Rightarrow> bool" where
  "str_in p [] = (p = [])"
| "str_in p (c # cs) = (prefix p (c # cs) \<or> str_in p cs)"

text \<open>
  The characters below 256 that \<^verbatim>\<open>str.split()\<close> and \<^verbatim>\<open>str.strip()\<close> treat as
  whitespace: tab, line feed, vertical tab, form feed, carriage return, the four
  separators 0x1C to 0x1F, the space, next line 0x85 and the no-break space 0xA0.
\<close>

definition whitespace :: string where
  "whitespace = [CHR 0x09, CHR 0x0A, CHR 0x0B, CHR 0x0C, CHR 0x0D,
                 CHR 0x1C, CHR 0x1D, CHR 0x1E, CHR 0x1F, CHR '' '', CHR 0x85, CHR 0xA0]"

definition is_space :: "char \<Rightarrow> bool" where
  "is_space c = (c \<in> set whitespace)"

text \<open>\<^verbatim>\<open>s.split()\<close>: the maximal runs of non-whitespace characters, in order.\<close>

fun split_from :: "string \<Rightarrow> string \<Rightarrow> string list" where
  "split_from cur [] = (if cur = [] then [] else [cur])"
| "split_from cur (c # cs) =
     (if is_space c then (if cur = [] then [] else [cur]) @ split_from [] cs
      else split_from (cur @ [c]) cs)"

definition split :: "string \<Rightarrow> string list" where
  "split s = split_from [] s"

text \<open>\<^verbatim>\<open>s.strip()\<close>: leading and trailing whitespace removed.\<close>

definition strip :: "string \<Rightarrow> string" where
  "strip s = rev (dropWhile is_space (rev (dropWhile is_space s)))"

text \<open>\<^verbatim>\<open>s.replace(' ', '_')\<close>.\<close>

definition replace_spaces :: "string \<Rightarrow> string" where
  "replace_spaces s = map (\<lambda>c. if c = CHR '' '' then CHR ''_'' else c) s"

text \<open>
  The Python objects that reach the knowledge base from a parsed JSON document.
  JSON numbers are restricted to integers. A dict is an association list in insertion
  order; its keys are strings, as JSON object keys are.
\<close>

datatype pyval =
    PNone
  | PBool bool
  | PInt int
  | PStr string
  | PList "pyval list"
  | PDict "(string \<times> pyval) list"

text \<open>Truth value of an object in a condition (\<^verbatim>\<open>if impl and mitg\<close>).\<close>

fun truthy :: "pyval \<Rightarrow> bool" where
  "truthy PNone = False"
| "truthy (PBool b) = b"
| "truthy (PInt i) = (i \<noteq> 0)"
| "truthy (PStr s) = (s \<noteq> [])"
| "truthy (PList xs) = (xs \<noteq> [])"
| "truthy (PDict kvs) = (kvs \<noteq> [])"

text \<open>\<^verbatim>\<open>d.get(key, default)\<close> on a dict.\<close>

definition dict_get :: "(string \<times> 'v) list \<Rightarrow> string \<Rightarrow> 'v \<Rightarrow> 'v" where
  "dict_get d k dflt = (case map_of d k of Some v \<Rightarrow> v | None \<Rightarrow> dflt)"

text \<open>\<^verbatim>\<open>d[key] = value\<close>: an existing key keeps its position, a new key goes last.\<close>

fun dict_set :: "string \<Rightarrow> 'v \<Rightarrow> (string \<times> 'v) list \<Rightarrow> (string \<times> 'v) list" where
  "dict_set k v [] = [(k, v)]"
| "dict_set k v ((k', v') # d) = (if k' = k then (k, v) # d else (k', v') # dict_set k v d)"

text \<open>Decimal text of an integer, as SQLite renders a number stored in a TEXT column.\<close>

definition digit_char :: "nat \<Rightarrow> char" where
  "digit_char d = ''0123456789'' ! d"

function show_nat :: "nat \<Rightarrow> string" where
  "show_nat n = (if n < 10 then [digit_char n] else show_nat (n div 10) @ [digit_char (n mod 10)])"
  by pat_completeness auto
termination
  by (relation "measure id") auto

definition show_int :: "int \<Rightarrow> string" where
  "show_int i = (if i < 0 then CHR ''-'' # show_nat (nat (- i)) else show_nat (nat i))"

section \<open>The knowledge-base store\<close>

text \<open>
  One row of table \<^verbatim>\<open>knowledge_base\<close>. The table is the list of its rows in rowid
  order; column \<^verbatim>\<open>id\<close> is read by no operation and is left out. Timestamps are
  seconds on the clock that \<^verbatim>\<open>CURRENT_TIMESTAMP\<close> reads. The counter is the number
  that column \<^verbatim>\<open>usage_count\<close> holds.
\<close>

record kb_row =
  issue_name :: string
  implication :: string
  mitigation :: string
  created_at :: nat
  updated_at :: nat
  usage_count :: int

text \<open>The value that \<^verbatim>\<open>load_kb_from_db\<close> stores under an issue name.\<close>

record details =
  impl :: string
  mitg :: string

type_synonym kb = "(string \<times> details) list"

text \<open>
  The state shared by all sessions: the table, and the entry that the decorator
  \<^verbatim>\<open>@st.cache_data(ttl=3600)\<close> keeps for \<^verbatim>\<open>load_kb_from_db\<close> (the time it was
  computed and the value).
\<close>

record kb_state =
  rows :: "kb_row list"
  cache :: "(nat \<times> kb) option"

definition empty_store :: kb_state where
  "empty_store = \<lparr>rows = [], cache = None\<rparr>"

datatype py_error = OperationalError | JSONDecodeError | AttributeError

text \<open>
  What the storage layer does in one call of \<^verbatim>\<open>add_to_kb_db\<close>:
  \<open>ConnectFails\<close> is \<^verbatim>\<open>sqlite3.connect\<close> raising (outside the \<^verbatim>\<open>try\<close>),
  \<open>ExecuteFails\<close> is \<^verbatim>\<open>execute\<close> or \<^verbatim>\<open>commit\<close> raising (inside it).
\<close>

datatype outcome = Ok | ConnectFails | ExecuteFails

text \<open>
  Binding a Python object to a statement parameter of a TEXT NOT NULL column:
  a list or a dict cannot be bound, \<^verbatim>\<open>None\<close> is NULL and violates the constraint,
  an integer that fits 64 bits is stored in its text form and a larger one cannot be
  bound. \<open>None\<close> stands for the exception raised by \<^verbatim>\<open>execute\<close>.
\<close>

fun bind_text :: "pyval \<Rightarrow> string option" where
  "bind_text PNone = None"
| "bind_text (PBool b) = Some (if b then ''1'' else ''0'')"
| "bind_text (PInt i) = (if - (2 ^ 63) \<le> i \<and> i < 2 ^ 63 then Some (show_int i) else None)"
| "bind_text (PStr s) = Some s"
| "bind_text (PList xs) = None"
| "bind_text (PDict kvs) = None"

text \<open>The statement of \<^verbatim>\<open>add_to_kb_db\<close>: insert, or on a conflict of issue_name update.\<close>

definition upsert_row :: "nat \<Rightarrow> string \<Rightarrow> string \<Rightarrow> string \<Rightarrow> kb_row list \<Rightarrow> kb_row list" where
  "upsert_row now name i m rs =
     (if name \<in> set (map issue_name rs)
      then map (\<lambda>r. if issue_name r = name
                     then r\<lparr>implication := i, mitigation := m, updated_at := now\<rparr> else r) rs
      else rs @ [\<lparr>issue_name = name, implication = i, mitigation = m,
                  created_at = now, updated_at = now, usage_count = 0\<rparr>])"

definition add_to_kb_db ::
  "outcome \<Rightarrow> nat \<Rightarrow> string \<Rightarrow> pyval \<Rightarrow> pyval \<Rightarrow> kb_state \<Rightarrow> py_error + (bool \<times> kb_state)" where
  "add_to_kb_db oc now name i m s =
     (if oc = ConnectFails then Inl OperationalError
      else if oc = ExecuteFails then Inr (False, s)
      else case (bind_text i, bind_text m) of
             (Some i', Some m') \<Rightarrow> Inr (True, s\<lparr>rows := upsert_row now name i' m' (rows s)\<rparr>)
           | _ \<Rightarrow> Inr (False, s))"

text \<open>
  The query of \<^verbatim>\<open>load_kb_from_db\<close>, \<^verbatim>\<open>ORDER BY usage_count DESC\<close> (rows of equal
  count stay in rowid order), and the dict built from its rows.
\<close>

definition select_by_usage :: "kb_row list \<Rightarrow> kb_row list" where
  "select_by_usage rs = sort_key (\<lambda>r. - usage_count r) rs"

definition kb_put :: "kb \<Rightarrow> kb_row \<Rightarrow> kb" where
  "kb_put kb r = dict_set (issue_name r) \<lparr>impl = implication r, mitg = mitigation r\<rparr> kb"

definition read_kb :: "kb_row list \<Rightarrow> kb" where
  "read_kb rs = foldl kb_put [] (select_by_usage rs)"

definition ttl :: nat where
  "ttl = 3600"

text \<open>Whether a call at time \<open>now\<close> is answered from the cache entry.\<close>

definition served_from_cache :: "nat \<Rightarrow> kb_state \<Rightarrow> bool" where
  "served_from_cache now s = (case cache s of Some (t, kb) \<Rightarrow> now < t + ttl | None \<Rightarrow> False)"

definition load_kb_from_db :: "nat \<Rightarrow> kb_state \<Rightarrow> kb \<times> kb_state" where
  "load_kb_from_db now s =
     (case cache s of
        Some (t, kb) \<Rightarrow>
          if now < t + ttl then (kb, s)
          else (read_kb (rows s), s\<lparr>cache := Some (now, read_kb (rows s))\<rparr>)
      | None \<Rightarrow> (read_kb (rows s), s\<lparr>cache := Some (now, read_kb (rows s))\<rparr>))"

text \<open>
  \<^verbatim>\<open>st.session_state\<close> of one session, as the set of its keys holding a true value.
\<close>

type_synonym session = "string set"

definition session_key :: "string \<Rightarrow> string" where
  "session_key name = ''kb_used_'' @ name"

text \<open>
  \<^verbatim>\<open>usage_count + 1\<close> as SQLite computes it. The column holds a 64-bit integer; adding
  1 to the largest one gives the REAL 2^63, and on a REAL of that size adding 1 changes
  nothing. A value outside the 64-bit range stands for the REAL of that value.
\<close>

definition sql_incr :: "int \<Rightarrow> int" where
  "sql_incr u = (if - (2 ^ 63) \<le> u \<and> u < 2 ^ 63 then u + 1 else u)"

definition bump_usage :: "string \<Rightarrow> kb_row list \<Rightarrow> kb_row list" where
  "bump_usage name rs =
     map (\<lambda>r. if issue_name r = name then r\<lparr>usage_count := sql_incr (usage_count r)\<rparr> else r) rs"

definition increment_kb_usage :: "string \<Rightarrow> session \<times> kb_state \<Rightarrow> session \<times> kb_state" where
  "increment_kb_usage name = (\<lambda>(ss, s).
     if session_key name \<notin> ss
     then (insert (session_key name) ss, s\<lparr>rows := bump_usage name (rows s)\<rparr>)
     else (ss, s))"

section \<open>Search\<close>

text \<open>
  The floating-point numbers of Python are not interpreted here. Their type is the type
  variable \<open>'f\<close>, and the operations that the loop body of \<^verbatim>\<open>search_kb_db\<close> applies to
  them are passed in: the value of a decimal literal, the conversion of an integer,
  addition, multiplication and the comparison \<^verbatim>\<open><\<close>.
\<close>

record 'f float_ops =
  f_lit :: "rat \<Rightarrow> 'f"
  f_of_int :: "int \<Rightarrow> 'f"
  f_add :: "'f \<Rightarrow> 'f \<Rightarrow> 'f"
  f_mul :: "'f \<Rightarrow> 'f \<Rightarrow> 'f"
  f_less :: "'f \<Rightarrow> 'f \<Rightarrow> bool"

text \<open>
  \<^verbatim>\<open>max\<close> and \<^verbatim>\<open>min\<close> of two values: the second replaces the first only when it
  is strictly larger, respectively smaller.
\<close>

definition py_max :: "'f float_ops \<Rightarrow> 'f \<Rightarrow> 'f \<Rightarrow> 'f" where
  "py_max fl a b = (if f_less fl a b then b else a)"

definition py_min :: "'f float_ops \<Rightarrow> 'f \<Rightarrow> 'f \<Rightarrow> 'f" where
  "py_min fl a b = (if f_less fl b a then b else a)"

text \<open>One element of the result of \<^verbatim>\<open>search_kb_db\<close>.\<close>

record 'f kb_match =
  m_issue :: string
  m_implication :: string
  m_mitigation :: string
  m_score :: 'f
  m_usage_count :: int

text \<open>
  The score computed in the loop body. \<open>ratio a b\<close> stands for
  \<^verbatim>\<open>SequenceMatcher(None, a, b).ratio()\<close> of the standard library.
\<close>

definition keyword_matches :: "string \<Rightarrow> kb_row \<Rightarrow> nat" where
  "keyword_matches query_lower r =
     length (filter (\<lambda>keyword. length keyword > 3 \<and>
                       (str_in keyword (lower (issue_name r)) \<or>
                        str_in keyword (lower (implication r)) \<or>
                        str_in keyword (lower (mitigation r))))
               (split query_lower))"

definition row_score ::
  "'f float_ops \<Rightarrow> (string \<Rightarrow> string \<Rightarrow> 'f) \<Rightarrow> string \<Rightarrow> kb_row \<Rightarrow> 'f" where
  "row_score fl ratio query_lower r =
     (let issue_similarity = ratio query_lower (lower (issue_name r));
          impl_similarity = ratio query_lower (lower (implication r));
          mitg_similarity = ratio query_lower (lower (mitigation r));
          max_similarity =
            py_max fl (py_max fl issue_similarity (f_mul fl impl_similarity (f_lit fl (8 / 10))))
              (f_mul fl mitg_similarity (f_lit fl (8 / 10)));
          km = keyword_matches query_lower r;
          max_similarity =
            (if km > 0
             then f_add fl max_similarity (f_mul fl (f_of_int fl (int km)) (f_lit fl (15 / 100)))
             else max_similarity);
          usage_boost =
            py_min fl (f_mul fl (f_of_int fl (usage_count r)) (f_lit fl (1 / 100))) (f_lit fl (1 / 10))
      in f_add fl max_similarity usage_boost)"

definition scan_row ::
  "'f float_ops \<Rightarrow> (string \<Rightarrow> string \<Rightarrow> 'f) \<Rightarrow> string \<Rightarrow> 'f kb_match list \<Rightarrow> kb_row
   \<Rightarrow> 'f kb_match list" where
  "scan_row fl ratio query_lower matches r =
     (let max_similarity = row_score fl ratio query_lower r
      in if f_less fl (f_lit fl (2 / 10)) max_similarity
         then matches @ [\<lparr>m_issue = issue_name r, m_implication = implication r,
                          m_mitigation = mitigation r, m_score = max_similarity,
                          m_usage_count = usage_count r\<rparr>]
         else matches)"

text \<open>
  \<^verbatim>\<open>matches.sort(key=..., reverse=True)\<close>: descending by score, matches that do not
  compare as smaller or larger staying in the order they were found.
\<close>

fun insert_desc :: "'f float_ops \<Rightarrow> 'f kb_match \<Rightarrow> 'f kb_match list \<Rightarrow> 'f kb_match list" where
  "insert_desc fl x [] = [x]"
| "insert_desc fl x (y # ys) =
     (if f_less fl (m_score x) (m_score y) then y # insert_desc fl x ys else x # y # ys)"

definition sort_desc :: "'f float_ops \<Rightarrow> 'f kb_match list \<Rightarrow> 'f kb_match list" where
  "sort_desc fl ms = foldr (insert_desc fl) ms []"

text \<open>\<^verbatim>\<open>xs[:n]\<close>: a negative \<open>n\<close> counts from the end.\<close>

definition slice_to :: "int \<Rightarrow> 'a list \<Rightarrow> 'a list" where
  "slice_to n xs = (if n < 0 then take (nat (int (length xs) + n)) xs else take (nat n) xs)"

definition search_kb_db ::
  "'f float_ops \<Rightarrow> (string \<Rightarrow> string \<Rightarrow> 'f) \<Rightarrow> string \<Rightarrow> int \<Rightarrow> kb_state \<Rightarrow> 'f kb_match list" where
  "search_kb_db fl ratio query top_n s =
     (if query = [] \<or> length query < 3 then []
      else let matches = foldl (scan_row fl ratio (lower query)) [] (rows s)
           in slice_to top_n (sort_desc fl matches))"

section \<open>Export and import\<close>

text \<open>
  A \<^verbatim>\<open>str\<close> holding a JSON document is represented by what \<^verbatim>\<open>json.loads\<close> makes
  of it: \<open>None\<close> when it raises, the parsed object otherwise. \<^verbatim>\<open>json.dumps\<close> of a
  dict of strings is a text that \<^verbatim>\<open>json.loads\<close> maps back to that dict.
\<close>

type_synonym json_text = "pyval option"

definition details_to_py :: "details \<Rightarrow> pyval" where
  "details_to_py d = PDict [(''implication'', PStr (impl d)), (''mitigation'', PStr (mitg d))]"

definition dumps :: "kb \<Rightarrow> json_text" where
  "dumps kb = Some (PDict (map (\<lambda>(k, d). (k, details_to_py d)) kb))"

definition export_kb_to_json :: "nat \<Rightarrow> kb_state \<Rightarrow> json_text \<times> kb_state" where
  "export_kb_to_json now s = (let (kb, s') = load_kb_from_db now s in (dumps kb, s'))"

text \<open>
  The argument of \<^verbatim>\<open>import_kb_from_json\<close>: a \<^verbatim>\<open>str\<close>, which is parsed, or any
  other object, which is used as it is.
\<close>

datatype json_data = Str json_text | Obj pyval

text \<open>
  The loop of \<^verbatim>\<open>import_kb_from_json\<close> over \<^verbatim>\<open>data.items()\<close>. \<open>oc name\<close> is what the
  storage layer does in the call of \<^verbatim>\<open>add_to_kb_db\<close> for that issue name. An exception
  leaves the loop with the store as the earlier iterations made it.
\<close>

fun import_items ::
  "(string \<Rightarrow> outcome) \<Rightarrow> nat \<Rightarrow> (string \<times> pyval) list \<Rightarrow> nat \<Rightarrow> kb_state
   \<Rightarrow> (py_error + nat) \<times> kb_state" where
  "import_items oc now [] count s = (Inr count, s)"
| "import_items oc now ((name, PDict d) # items) count s =
     (let i = dict_get d ''implication'' (PStr []);
          m = dict_get d ''mitigation'' (PStr [])
      in if truthy i \<and> truthy m
         then (case add_to_kb_db (oc name) now name i m s of
                 Inl e \<Rightarrow> (Inl e, s)
               | Inr (success, s') \<Rightarrow>
                   import_items oc now items (if success then count + 1 else count) s')
         else import_items oc now items count s)"
| "import_items oc now ((name, v) # items) count s = import_items oc now items count s"

definition loads :: "json_data \<Rightarrow> py_error + pyval" where
  "loads json_data =
     (case json_data of
        Str None \<Rightarrow> Inl JSONDecodeError
      | Str (Some v) \<Rightarrow> Inr v
      | Obj v \<Rightarrow> Inr v)"

text \<open>\<^verbatim>\<open>data.items()\<close>: only a dict has the method.\<close>

definition dict_items :: "pyval \<Rightarrow> py_error + (string \<times> pyval) list" where
  "dict_items data = (case data of PDict items \<Rightarrow> Inr items | _ \<Rightarrow> Inl AttributeError)"

text \<open>
  \<^verbatim>\<open>import_kb_from_json\<close>: every exception raised in the \<^verbatim>\<open>try\<close> block ends in the
  handler that returns 0.
\<close>

definition import_kb_from_json ::
  "(string \<Rightarrow> outcome) \<Rightarrow> nat \<Rightarrow> json_data \<Rightarrow> kb_state \<Rightarrow> nat \<times> kb_state" where
  "import_kb_from_json oc now json_data s =
     (case loads json_data of
        Inl e \<Rightarrow> (0, s)
      | Inr data \<Rightarrow>
          (case dict_items data of
             Inl e \<Rightarrow> (0, s)
           | Inr items \<Rightarrow>
               (case import_items oc now items 0 s of
                  (Inl e, s') \<Rightarrow> (0, s')
                | (Inr count, s') \<Rightarrow> (count, s'))))"

section \<open>The report\<close>

text \<open>
  A finding of the session. A key read with the empty string as default is a string
  field (an absent key is the empty string); a key read with another default is an
  option.
\<close>

record finding =
  number :: string
  issue :: string
  classification :: "string option"
  severity_level :: "string option"
  severity_status :: "string option"
  responsible_party :: string
  f_implication :: string
  f_mitigation :: string
  affected_hosts :: "string list"

subsection \<open>Findings master table\<close>

text \<open>
  The rows of the table: the header, a classification row spanning all columns, and a
  finding row (number, issue, severity level, status, fill colour of the status cell,
  responsible party).
\<close>

datatype table_row =
    HeaderRow
  | GroupRow string
  | FindingRow string string string string "string option" string

definition classifications :: "string list" where
  "classifications =
     [''Mobile Application Vulnerability'', ''Server Vulnerabilities'', ''Web Vulnerabilities'']"

definition finding_row :: "finding \<Rightarrow> table_row" where
  "finding_row f =
     (let level = (case severity_level f of Some x \<Rightarrow> x | None \<Rightarrow> ''Medium'');
          status = (case severity_status f of Some x \<Rightarrow> x | None \<Rightarrow> ''Open'');
          fill = (if lower status = ''open'' then Some ''FF0000''
                  else if lower status = ''closed'' then Some ''00FF00'' else None)
      in FindingRow (number f) (issue f) level status fill (responsible_party f))"

fun add_groups :: "string list \<Rightarrow> finding list \<Rightarrow> table_row list \<Rightarrow> table_row list" where
  "add_groups [] findings table = table"
| "add_groups (c # cs) findings table =
     (let classified_findings = filter (\<lambda>f. classification f = Some c) findings
      in add_groups cs findings
           (if classified_findings \<noteq> []
            then (table @ [GroupRow c]) @ map finding_row classified_findings
            else table))"

definition add_findings_master_table :: "finding list \<Rightarrow> table_row list" where
  "add_findings_master_table findings = add_groups classifications findings [HeaderRow]"

subsection \<open>Finding pages\<close>








subsection \<open>Output file name\<close>

text \<open>The characters that the substitution with pattern \<^verbatim>\<open>[^0-9a-zA-Z-_ ]+\<close> keeps.\<close>

definition allowed_chars :: string where
  "allowed_chars = ''0123456789'' @ lower_chars @ upper_chars @ ''-_ ''"

definition version :: string where
  "version = ''v1.0''"

definition safe_name :: "string \<Rightarrow> string" where
  "safe_name app_name = replace_spaces (strip (filter (\<lambda>c. c \<in> set allowed_chars) app_name))"

definition generate_report_filename :: "string \<Rightarrow> string" where
  "generate_report_filename app_name = safe_name app_name @ ''_'' @ version @ ''.docx''"

section \<open>Notions used in the statements\<close>

subsection \<open>Store\<close>

text \<open>The columns of a row that \<^verbatim>\<open>load_kb_from_db\<close> reads or orders by.\<close>

definition core :: "kb_row \<Rightarrow> string \<times> string \<times> string \<times> int" where
  "core r = (issue_name r, implication r, mitigation r, usage_count r)"

text \<open>The stored counter of an issue name, \<open>None\<close> when the name is not in the table.\<close>

definition usage_of :: "string \<Rightarrow> kb_row list \<Rightarrow> int option" where
  "usage_of name rs = map_option usage_count (find (\<lambda>r. issue_name r = name) rs)"

text \<open>Every row has a non-empty implication and a non-empty mitigation.\<close>

definition nonempty_rows :: "kb_row list \<Rightarrow> bool" where
  "nonempty_rows rs = list_all (\<lambda>r. implication r \<noteq> [] \<and> mitigation r \<noteq> []) rs"

definition nonempty_texts :: "kb \<Rightarrow> bool" where
  "nonempty_texts kb = list_all (\<lambda>e. impl (snd e) \<noteq> [] \<and> mitg (snd e) \<noteq> []) kb"

text \<open>The row that an insert of a new issue name creates.\<close>

definition new_row :: "nat \<Rightarrow> string \<times> string \<times> string \<Rightarrow> kb_row" where
  "new_row now e = (case e of (name, i, m) \<Rightarrow>
     \<lparr>issue_name = name, implication = i, mitigation = m,
      created_at = now, updated_at = now, usage_count = 0\<rparr>)"

text \<open>A storage layer that never fails.\<close>

definition always_ok :: "string \<Rightarrow> outcome" where
  "always_ok name = Ok"

subsection \<open>Import, in the words of the specification\<close>

text \<open>An entry that is imported: a dict with non-empty implication and mitigation.\<close>

definition importable :: "pyval \<Rightarrow> bool" where
  "importable v =
     (case v of
        PDict d \<Rightarrow> truthy (dict_get d ''implication'' (PStr [])) \<and>
                   truthy (dict_get d ''mitigation'' (PStr []))
      | _ \<Rightarrow> False)"

text \<open>
  The row data that an entry contributes when its upsert succeeds: the entry is
  importable, the storage layer works, and both values can be bound as text.
\<close>

definition upserted :: "(string \<Rightarrow> outcome) \<Rightarrow> string \<times> pyval \<Rightarrow> (string \<times> string \<times> string) option" where
  "upserted oc item =
     (case item of
        (name, PDict d) \<Rightarrow>
          (if importable (PDict d) \<and> oc name = Ok
           then (case (bind_text (dict_get d ''implication'' (PStr [])),
                       bind_text (dict_get d ''mitigation'' (PStr []))) of
                   (Some i, Some m) \<Rightarrow> Some (name, i, m)
                 | _ \<Rightarrow> None)
           else None)
      | _ \<Rightarrow> None)"

definition upsert_all :: "nat \<Rightarrow> (string \<times> string \<times> string) list \<Rightarrow> kb_state \<Rightarrow> kb_state" where
  "upsert_all now entries s =
     s\<lparr>rows := foldl (\<lambda>rs (name, i, m). upsert_row now name i m rs) (rows s) entries\<rparr>"

text \<open>An entry whose call of \<^verbatim>\<open>add_to_kb_db\<close> raises.\<close>

definition raises :: "(string \<Rightarrow> outcome) \<Rightarrow> string \<times> pyval \<Rightarrow> bool" where
  "raises oc item = (importable (snd item) \<and> oc (fst item) = ConnectFails)"

definition is_dict :: "pyval \<Rightarrow> bool" where
  "is_dict v = (case v of PDict d \<Rightarrow> True | _ \<Rightarrow> False)"

subsection \<open>Findings master table, in the words of the specification\<close>

definition has_findings :: "finding list \<Rightarrow> string \<Rightarrow> bool" where
  "has_findings findings c = list_ex (\<lambda>f. classification f = Some c) findings"

definition group_rows :: "finding list \<Rightarrow> string \<Rightarrow> table_row list" where
  "group_rows findings c =
     GroupRow c # map finding_row (filter (\<lambda>f. classification f = Some c) findings)"

text \<open>The classification rows of a table, in the order they appear.\<close>

fun group_headers :: "table_row list \<Rightarrow> string list" where
  "group_headers [] = []"
| "group_headers (GroupRow c # rs) = c # group_headers rs"
| "group_headers (r # rs) = group_headers rs"

subsection \<open>Finding pages, in the words of the specification\<close>







subsection \<open>Output file name, in the words of the specification\<close>

definition keep_allowed :: "string \<Rightarrow> string" where
  "keep_allowed s = filter (\<lambda>c. c \<in> set allowed_chars) s"

definition trim_spaces :: "string \<Rightarrow> string" where
  "trim_spaces s =
     rev (dropWhile (\<lambda>c. c = CHR '' '') (rev (dropWhile (\<lambda>c. c = CHR '' '') s)))"

text \<open>Disallowed characters removed and every space replaced.\<close>

definition claimed_filename :: "string \<Rightarrow> string" where
  "claimed_filename app_name = replace_spaces (keep_allowed app_name) @ ''_v1.0.docx''"

text \<open>The same, with leading and trailing spaces removed before the replacement.\<close>

definition trimmed_filename :: "string \<Rightarrow> string" where
  "trimmed_filename app_name =
     replace_spaces (trim_spaces (keep_allowed app_name)) @ ''_v1.0.docx''"

subsection \<open>Example data\<close>

text \<open>An instance of the float operations, on the rationals, and a similarity.\<close>

definition rational_ops :: "rat float_ops" where
  "rational_ops = \<lparr>f_lit = (\<lambda>q. q), f_of_int = of_int, f_add = (+), f_mul = (*), f_less = (<)\<rparr>"

definition eq_ratio :: "string \<Rightarrow> string \<Rightarrow> rat" where
  "eq_ratio a b = (if a = b then 1 else 0)"

definition demo_rows :: "kb_row list" where
  "demo_rows =
     [\<lparr>issue_name = ''Weak TLS'', implication = ''traffic can be read'', mitigation = ''disable TLS 1.0'',
       created_at = 0, updated_at = 0, usage_count = 30\<rparr>,
      \<lparr>issue_name = ''SQL Injection'', implication = ''data theft'', mitigation = ''bind parameters'',
       created_at = 0, updated_at = 0, usage_count = 0\<rparr>,
      \<lparr>issue_name = ''Open port'', implication = ''larger attack surface'', mitigation = ''close it'',
       created_at = 0, updated_at = 0, usage_count = 25\<rparr>]"

definition demo_store :: kb_state where
  "demo_store = \<lparr>rows = demo_rows, cache = None\<rparr>"

definition demo_kb :: kb where
  "demo_kb =
     [(''Weak TLS'', \<lparr>impl = ''traffic can be read'', mitg = ''disable TLS 1.0''\<rparr>),
      (''Open port'', \<lparr>impl = ''larger attack surface'', mitg = ''close it''\<rparr>),
      (''SQL Injection'', \<lparr>impl = ''data theft'', mitg = ''bind parameters''\<rparr>)]"







text \<open>A store whose counter holds the largest 64-bit integer.\<close>

definition full_store :: kb_state where
  "full_store =
     \<lparr>rows = [\<lparr>issue_name = ''Open port'', implication = ''larger attack surface'',
               mitigation = ''close it'', created_at = 0, updated_at = 0,
               usage_count = 9223372036854775807\<rparr>],
      cache = None\<rparr>"

definition entry :: "string \<Rightarrow> string \<Rightarrow> pyval" where
  "entry i m = PDict [(''implication'', PStr i), (''mitigation'', PStr m)]"

definition demo_items :: "(string \<times> pyval) list" where
  "demo_items =
     [(''A'', entry ''x'' ''y''),
      (''B'', PStr ''oops''),
      (''C'', PDict [(''implication'', PStr ''x'')]),
      (''D'', entry ''p'' ''q'')]"

definition fails_on_D :: "string \<Rightarrow> outcome" where
  "fails_on_D name = (if name = ''D'' then ConnectFails else Ok)"

section \<open>Auxiliary lemmas\<close>

subsection \<open>Strings\<close>

lemma lower_examples:
  "lower ''SQL Injection'' = ''sql injection''"
  "lower [CHR 0xC9, CHR 0xC0, CHR 0xDE, CHR 0xD7, CHR 0xDF, CHR 0xFF, CHR 0xB5, CHR ''@'', CHR ''['']
     = [CHR 0xE9, CHR 0xE0, CHR 0xFE, CHR 0xD7, CHR 0xDF, CHR 0xFF, CHR 0xB5, CHR ''@'', CHR ''['']"
  by (simp_all add: lower_def lower_char_def upper_chars_def lower_chars_def latin1_upper_def
      latin1_lower_def)

lemma split_examples:
  "split ''  open port  scan '' = [''open'', ''port'', ''scan'']"
  "split (''open'' @ [CHR 0xA0] @ ''port'' @ [CHR 0x85, CHR 0x09] @ ''scan'' @ [CHR 0x1C])
     = [''open'', ''port'', ''scan'']"
  "split [] = []"
  by (simp_all add: split_def is_space_def whitespace_def)

lemma strip_examples:
  "strip ([CHR 0xA0] @ '' a b '' @ [CHR 0x0A]) = ''a b''"
  by (simp add: strip_def is_space_def whitespace_def)

lemma split_tokens:
  "t \<in> set (split_from cur s) \<Longrightarrow> t \<noteq> [] \<and> (\<forall>c \<in> set t. c \<in> set cur \<or> \<not> is_space c)"
proof (induction cur s rule: split_from.induct)
  case (1 cur)
  then show ?case by (auto split: if_splits)
next
  case (2 cur c cs)
  show ?case
  proof (cases "is_space c")
    case True
    with "2.prems" have "t = cur \<and> cur \<noteq> [] \<or> t \<in> set (split_from [] cs)"
      by (auto split: if_splits)
    then show ?thesis
    proof
      assume "t = cur \<and> cur \<noteq> []"
      then show ?thesis by simp
    next
      assume "t \<in> set (split_from [] cs)"
      with "2.IH"(1) [OF True] show ?thesis by simp
    qed
  next
    case False
    with "2.prems" have "t \<in> set (split_from (cur @ [c]) cs)" by simp
    with "2.IH"(2) [OF False] have "t \<noteq> []"
      and "\<forall>x \<in> set t. x \<in> set (cur @ [c]) \<or> \<not> is_space x" by simp_all
    with False show ?thesis by auto
  qed
qed

lemma split_concat:
  "concat (split_from cur s) = cur @ filter (\<lambda>c. \<not> is_space c) s"
  by (induction cur s rule: split_from.induct) auto

subsection \<open>Dicts\<close>

lemma map_of_dict_set: "map_of (dict_set k v d) = (map_of d)(k \<mapsto> v)"
  by (induction d) (auto simp: fun_eq_iff)

lemma keys_dict_set:
  "map fst (dict_set k v d) = (if k \<in> set (map fst d) then map fst d else map fst d @ [k])"
proof (induction d)
  case Nil
  then show ?case by simp
next
  case (Cons e d)
  obtain k' v' where e: "e = (k', v')" by (cases e)
  show ?case
  proof (cases "k' = k")
    case True
    then show ?thesis by (simp add: e)
  next
    case False
    with Cons show ?thesis by (simp add: e)
  qed
qed

lemma distinct_dict_set: "distinct (map fst d) \<Longrightarrow> distinct (map fst (dict_set k v d))"
  by (simp add: keys_dict_set)

lemma dict_set_absent: "k \<notin> set (map fst d) \<Longrightarrow> dict_set k v d = d @ [(k, v)]"
  by (induction d) auto

lemma set_dict_set: "set (dict_set k v d) \<subseteq> insert (k, v) (set d)"
  by (induction d) (auto split: if_splits)

lemma filter_key_absent: "k \<notin> set (map fst d) \<Longrightarrow> filter (\<lambda>e. fst e = k) d = []"
  by (induction d) auto

lemma single_entry:
  "distinct (map fst d) \<Longrightarrow> map_of d k = Some v \<Longrightarrow> filter (\<lambda>e. fst e = k) d = [(k, v)]"
proof (induction d)
  case Nil
  then show ?case by simp
next
  case (Cons e d)
  obtain k' v' where e: "e = (k', v')" by (cases e)
  show ?case
  proof (cases "k' = k")
    case True
    with Cons.prems e have "k \<notin> set (map fst d)" and "v' = v" by simp_all
    with True e show ?thesis by (simp add: filter_key_absent)
  next
    case False
    with Cons.prems e have "distinct (map fst d)" and "map_of d k = Some v" by simp_all
    with Cons.IH False e show ?thesis by simp
  qed
qed

lemma details_eta: "(fst e, \<lparr>impl = impl (snd e), mitg = mitg (snd e)\<rparr>) = (e :: string \<times> details)"
  by (cases e, cases "snd e") simp

subsection \<open>Reading the table\<close>

lemma distinct_foldl_kb_put:
  "distinct (map fst d) \<Longrightarrow> distinct (map fst (foldl kb_put d rs))"
  by (induction rs arbitrary: d) (simp_all add: kb_put_def distinct_dict_set)

lemma read_kb_distinct: "distinct (map fst (read_kb rs))"
  by (simp add: read_kb_def distinct_foldl_kb_put)

lemma map_of_foldl_kb_put_other:
  "name \<notin> set (map issue_name rs) \<Longrightarrow> map_of (foldl kb_put d rs) name = map_of d name"
  by (induction rs arbitrary: d) (auto simp: kb_put_def map_of_dict_set)

lemma map_of_foldl_kb_put:
  assumes "\<forall>r \<in> set rs. issue_name r = name \<longrightarrow> implication r = i \<and> mitigation r = m"
    and "name \<in> set (map issue_name rs)"
  shows "map_of (foldl kb_put d rs) name = Some \<lparr>impl = i, mitg = m\<rparr>"
  using assms
proof (induction rs arbitrary: d)
  case Nil
  then show ?case by simp
next
  case (Cons r rs)
  show ?case
  proof (cases "name \<in> set (map issue_name rs)")
    case True
    with Cons show ?thesis by simp
  next
    case False
    with Cons.prems have "issue_name r = name" by auto
    have "map_of (foldl kb_put (kb_put d r) rs) name = map_of (kb_put d r) name"
      using False by (rule map_of_foldl_kb_put_other)
    also have "\<dots> = Some \<lparr>impl = i, mitg = m\<rparr>"
      using Cons.prems \<open>issue_name r = name\<close> by (simp add: kb_put_def map_of_dict_set)
    finally show ?thesis by simp
  qed
qed

lemma set_foldl_kb_put:
  "set (foldl kb_put d rs) \<subseteq>
   set d \<union> (\<lambda>r. (issue_name r, \<lparr>impl = implication r, mitg = mitigation r\<rparr>)) ` set rs"
proof (induction rs arbitrary: d)
  case Nil
  then show ?case by simp
next
  case (Cons r rs)
  have "set (kb_put d r) \<subseteq> insert (issue_name r, \<lparr>impl = implication r, mitg = mitigation r\<rparr>) (set d)"
    by (simp add: kb_put_def set_dict_set)
  with Cons.IH [of "kb_put d r"] show ?case by auto
qed

lemma nonempty_read_kb: "nonempty_rows rs \<Longrightarrow> nonempty_texts (read_kb rs)"
proof -
  assume a: "nonempty_rows rs"
  have "set (read_kb rs) \<subseteq>
      (\<lambda>r. (issue_name r, \<lparr>impl = implication r, mitg = mitigation r\<rparr>)) ` set rs"
    using set_foldl_kb_put [of "[]" "select_by_usage rs"]
    by (simp add: read_kb_def select_by_usage_def)
  with a show ?thesis
    by (auto simp: nonempty_rows_def nonempty_texts_def list_all_iff)
qed

lemma insort_key_map:
  "(\<And>x. f (g x) = h x) \<Longrightarrow> insort_key f (g x) (map g ys) = map g (insort_key h x ys)"
  by (induction ys) auto

lemma sort_key_map:
  "(\<And>x. f (g x) = h x) \<Longrightarrow> sort_key f (map g xs) = map g (sort_key h xs)"
  by (induction xs) (simp_all add: insort_key_map)

lemma foldl_kb_put_core:
  "foldl kb_put d rs = foldl (\<lambda>kb (n, i, m, u). dict_set n \<lparr>impl = i, mitg = m\<rparr> kb) d (map core rs)"
  by (induction rs arbitrary: d) (simp_all add: kb_put_def core_def)

lemma read_kb_core:
  "read_kb rs = foldl (\<lambda>kb (n, i, m, u). dict_set n \<lparr>impl = i, mitg = m\<rparr> kb) []
                  (sort_key (\<lambda>(n, i, m, u). - u) (map core rs))"
proof -
  have "sort_key (\<lambda>(n, i, m, u). - u) (map core rs) = map core (sort_key (\<lambda>r. - usage_count r) rs)"
    by (rule sort_key_map) (simp add: core_def)
  then show ?thesis
    by (simp add: read_kb_def select_by_usage_def foldl_kb_put_core)
qed

lemma read_kb_cong: "map core rs = map core rs' \<Longrightarrow> read_kb rs = read_kb rs'"
  by (simp add: read_kb_core)

lemma load_not_cached:
  "\<not> served_from_cache now s \<Longrightarrow> fst (load_kb_from_db now s) = read_kb (rows s)"
  by (auto simp: served_from_cache_def load_kb_from_db_def split: option.splits)

lemma load_cong:
  "cache s1 = cache s2 \<Longrightarrow> read_kb (rows s1) = read_kb (rows s2) \<Longrightarrow>
   fst (load_kb_from_db t s1) = fst (load_kb_from_db t s2)"
  by (simp add: load_kb_from_db_def split: option.splits)

lemma foldl_kb_put_fresh:
  "distinct (map issue_name rs) \<Longrightarrow> set (map issue_name rs) \<inter> set (map fst d) = {} \<Longrightarrow>
   foldl kb_put d rs = d @ map (\<lambda>r. (issue_name r, \<lparr>impl = implication r, mitg = mitigation r\<rparr>)) rs"
proof (induction rs arbitrary: d)
  case Nil
  then show ?case by simp
next
  case (Cons r rs)
  from Cons.prems have absent: "issue_name r \<notin> set (map fst d)" by auto
  have step: "kb_put d r = d @ [(issue_name r, \<lparr>impl = implication r, mitg = mitigation r\<rparr>)]"
    by (simp add: kb_put_def dict_set_absent [OF absent])
  have "set (map issue_name rs) \<inter> set (map fst (kb_put d r)) = {}"
    using Cons.prems by (auto simp: step)
  moreover have "distinct (map issue_name rs)" using Cons.prems by simp
  ultimately have "foldl kb_put (kb_put d r) rs =
      kb_put d r @ map (\<lambda>r. (issue_name r, \<lparr>impl = implication r, mitg = mitigation r\<rparr>)) rs"
    by (rule Cons.IH [rotated])
  then show ?case by (simp add: step)
qed

lemma sorted_const: "sorted (map (\<lambda>x. c) xs)"
  by (induction xs) auto

lemma select_by_usage_new: "select_by_usage (map (new_row now) es) = map (new_row now) es"
proof -
  have "map (\<lambda>r. - usage_count r) (map (new_row now) es) = map (\<lambda>e. 0) es"
    by (simp add: new_row_def split: prod.splits)
  then have "sorted (map (\<lambda>r. - usage_count r) (map (new_row now) es))"
    by (simp only: sorted_const)
  then show ?thesis
    unfolding select_by_usage_def by (rule sort_key_id_if_sorted)
qed

lemma read_kb_new:
  assumes "distinct (map fst es)"
  shows "read_kb (map (new_row now) es) = map (\<lambda>(name, i, m). (name, \<lparr>impl = i, mitg = m\<rparr>)) es"
proof -
  have n: "map issue_name (map (new_row now) es) = map fst es"
    by (simp add: new_row_def split: prod.splits)
  have "foldl kb_put [] (map (new_row now) es) =
      [] @ map (\<lambda>r. (issue_name r, \<lparr>impl = implication r, mitg = mitigation r\<rparr>)) (map (new_row now) es)"
    by (rule foldl_kb_put_fresh) (simp_all only: n assms, simp)
  then show ?thesis
    by (simp add: read_kb_def select_by_usage_new new_row_def split: prod.splits)
qed

subsection \<open>Upsert\<close>

lemma upsert_row_present:
  "name \<in> set (map issue_name rs) \<Longrightarrow>
   upsert_row now name i m rs =
     map (\<lambda>r. if issue_name r = name
               then r\<lparr>implication := i, mitigation := m, updated_at := now\<rparr> else r) rs"
  by (simp only: upsert_row_def if_True)

lemma upsert_row_absent:
  "name \<notin> set (map issue_name rs) \<Longrightarrow>
   upsert_row now name i m rs =
     rs @ [\<lparr>issue_name = name, implication = i, mitigation = m,
             created_at = now, updated_at = now, usage_count = 0\<rparr>]"
  by (simp only: upsert_row_def if_False)

lemma upsert_row_issue_names:
  "map issue_name (upsert_row now name i m rs) =
     (if name \<in> set (map issue_name rs) then map issue_name rs else map issue_name rs @ [name])"
proof (cases "name \<in> set (map issue_name rs)")
  case True
  have "map issue_name (map (\<lambda>r. if issue_name r = name
          then r\<lparr>implication := i, mitigation := m, updated_at := now\<rparr> else r) rs) = map issue_name rs"
    unfolding map_map by (rule map_cong [OF refl]) simp
  with True show ?thesis by (simp only: upsert_row_present if_True)
next
  case False
  then show ?thesis by (simp add: upsert_row_absent)
qed

lemma upsert_row_names: "name \<in> set (map issue_name (upsert_row now name i m rs))"
  by (simp add: upsert_row_issue_names)

lemma upsert_row_values:
  assumes "r \<in> set (upsert_row now name i m rs)" and "issue_name r = name"
  shows "implication r = i \<and> mitigation r = m"
proof (cases "name \<in> set (map issue_name rs)")
  case True
  with assms(1) obtain r0 where "r0 \<in> set rs"
    and r: "r = (if issue_name r0 = name
          then r0\<lparr>implication := i, mitigation := m, updated_at := now\<rparr> else r0)"
    by (auto simp only: upsert_row_present set_map)
  show ?thesis
  proof (cases "issue_name r0 = name")
    case True
    with r show ?thesis by simp
  next
    case False
    with r assms(2) show ?thesis by simp
  qed
next
  case False
  with assms(1) have "r \<in> set rs \<or> r = \<lparr>issue_name = name, implication = i, mitigation = m,
             created_at = now, updated_at = now, usage_count = 0\<rparr>"
    by (auto simp add: upsert_row_absent)
  then show ?thesis
  proof
    assume "r \<in> set rs"
    with assms(2) have "name \<in> set (map issue_name rs)" by force
    with False show ?thesis by simp
  next
    assume "r = \<lparr>issue_name = name, implication = i, mitigation = m,
             created_at = now, updated_at = now, usage_count = 0\<rparr>"
    then have "implication r = i" and "mitigation r = m"
      by (metis kb_row.select_convs(2), metis kb_row.select_convs(3))
    then show ?thesis by simp
  qed
qed

lemma read_kb_upsert:
  "filter (\<lambda>e. fst e = name) (read_kb (upsert_row now name i m rs)) = [(name, \<lparr>impl = i, mitg = m\<rparr>)]"
proof -
  let ?rs = "select_by_usage (upsert_row now name i m rs)"
  have s: "set ?rs = set (upsert_row now name i m rs)" by (simp add: select_by_usage_def)
  have "map_of (foldl kb_put [] ?rs) name = Some \<lparr>impl = i, mitg = m\<rparr>"
  proof (rule map_of_foldl_kb_put)
    show "\<forall>r \<in> set ?rs. issue_name r = name \<longrightarrow> implication r = i \<and> mitigation r = m"
      using s upsert_row_values by blast
    show "name \<in> set (map issue_name ?rs)"
      using s upsert_row_names [of name now i m rs] by auto
  qed
  then show ?thesis
    using read_kb_distinct [of "upsert_row now name i m rs"]
    by (simp add: read_kb_def single_entry)
qed

lemma upsert_row_same_core:
  assumes "name \<in> set (map issue_name rs)"
    and "\<And>r. r \<in> set rs \<Longrightarrow> issue_name r = name \<Longrightarrow> implication r = i \<and> mitigation r = m"
  shows "map core (upsert_row now name i m rs) = map core rs"
proof -
  have "map core (map (\<lambda>r. if issue_name r = name
               then r\<lparr>implication := i, mitigation := m, updated_at := now\<rparr> else r) rs) = map core rs"
    unfolding map_map
  proof (rule map_cong [OF refl])
    fix r assume "r \<in> set rs"
    then show "(core \<circ> (\<lambda>r. if issue_name r = name
               then r\<lparr>implication := i, mitigation := m, updated_at := now\<rparr> else r)) r = core r"
      using assms(2) [of r] by (simp add: core_def)
  qed
  with assms(1) show ?thesis by (simp only: upsert_row_present)
qed

lemma add_to_kb_db_ok:
  "add_to_kb_db Ok now name (PStr i) (PStr m) s =
     Inr (True, s\<lparr>rows := upsert_row now name i m (rows s)\<rparr>)"
  by (simp add: add_to_kb_db_def)

lemma add_to_kb_db_cases:
  assumes "add_to_kb_db oc now name i m s = Inr (ok, s')"
  shows "s' = s \<or> (\<exists>i' m'. s' = s\<lparr>rows := upsert_row now name i' m' (rows s)\<rparr>)"
  using assms by (cases oc) (auto simp: add_to_kb_db_def split: option.splits)

lemma add_to_kb_db_returns:
  "oc \<noteq> ConnectFails \<Longrightarrow> \<exists>ok s'. add_to_kb_db oc now name i m s = Inr (ok, s')"
  by (cases oc; cases "bind_text i"; cases "bind_text m") (auto simp add: add_to_kb_db_def)

lemma foldl_upsert_fresh:
  "distinct (map fst es) \<Longrightarrow> set (map fst es) \<inter> set (map issue_name rs) = {} \<Longrightarrow>
   foldl (\<lambda>rs (name, i, m). upsert_row now name i m rs) rs es = rs @ map (new_row now) es"
proof (induction es arbitrary: rs)
  case Nil
  then show ?case by simp
next
  case (Cons e es)
  obtain name i m where e: "e = (name, i, m)" by (cases e)
  from Cons.prems have absent: "name \<notin> set (map issue_name rs)" by (auto simp: e)
  have step: "upsert_row now name i m rs = rs @ [new_row now e]"
    by (simp add: upsert_row_absent [OF absent] new_row_def e)
  have "set (map fst es) \<inter> set (map issue_name (rs @ [new_row now e])) = {}"
    using Cons.prems by (auto simp: e new_row_def)
  moreover have "distinct (map fst es)" using Cons.prems by simp
  ultimately have "foldl (\<lambda>rs (name, i, m). upsert_row now name i m rs) (rs @ [new_row now e]) es =
      (rs @ [new_row now e]) @ map (new_row now) es"
    by (rule Cons.IH [rotated])
  then show ?case by (simp add: e step [unfolded e])
qed

subsection \<open>Usage counters\<close>

lemma usage_of_bump:
  "usage_of name (bump_usage name' rs) =
     map_option (\<lambda>n. if name = name' then sql_incr n else n) (usage_of name rs)"
  by (induction rs) (auto simp: usage_of_def bump_usage_def)

lemma usage_of_append_absent:
  "usage_of name rs = Some n \<Longrightarrow> usage_of name (rs @ rs') = Some n"
  by (induction rs) (auto simp: usage_of_def split: if_splits)

lemma usage_of_update:
  "usage_of name (map (\<lambda>r. if issue_name r = name'
       then r\<lparr>implication := i, mitigation := m, updated_at := now\<rparr> else r) rs) = usage_of name rs"
  by (induction rs) (auto simp: usage_of_def)

lemma usage_of_upsert:
  "usage_of name rs = Some n \<Longrightarrow> usage_of name (upsert_row now name' i m rs) = Some n"
proof (cases "name' \<in> set (map issue_name rs)")
  case True
  assume "usage_of name rs = Some n"
  then show ?thesis by (simp only: upsert_row_present [OF True] usage_of_update)
next
  case False
  assume "usage_of name rs = Some n"
  then show ?thesis by (simp only: upsert_row_absent [OF False] usage_of_append_absent)
qed

lemma usage_of_add:
  assumes "usage_of name (rows s) = Some n" and "add_to_kb_db oc now name' i m s = Inr (ok, s')"
  shows "usage_of name (rows s') = Some n"
  using add_to_kb_db_cases [OF assms(2)] assms(1) by (auto simp: usage_of_upsert)

subsection \<open>The import loop\<close>

lemma upsert_all_Nil: "upsert_all now [] s = s"
  by (simp add: upsert_all_def)

lemma upsert_all_Cons:
  "upsert_all now ((name, i, m) # es) s =
   upsert_all now es (s\<lparr>rows := upsert_row now name i m (rows s)\<rparr>)"
  by (simp add: upsert_all_def)

lemma import_items_skip:
  "\<not> importable v \<Longrightarrow>
   import_items oc now ((name, v) # items) count s = import_items oc now items count s"
  by (cases v) (auto simp: importable_def Let_def)

lemma import_items_call:
  "importable (PDict d) \<Longrightarrow>
   import_items oc now ((name, PDict d) # items) count s =
     (case add_to_kb_db (oc name) now name
             (dict_get d ''implication'' (PStr [])) (dict_get d ''mitigation'' (PStr [])) s of
        Inl e \<Rightarrow> (Inl e, s)
      | Inr (success, s') \<Rightarrow> import_items oc now items (if success then count + 1 else count) s')"
  by (simp add: importable_def Let_def)

lemma map_filter_Cons_None: "f x = None \<Longrightarrow> List.map_filter f (x # xs) = List.map_filter f xs"
  by (simp add: List.map_filter_simps)

lemma map_filter_Cons_Some: "f x = Some y \<Longrightarrow> List.map_filter f (x # xs) = y # List.map_filter f xs"
  by (simp add: List.map_filter_simps)

lemma import_items_no_raise:
  "\<not> list_ex (raises oc) items \<Longrightarrow>
   import_items oc now items count s =
     (Inr (count + length (List.map_filter (upserted oc) items)),
      upsert_all now (List.map_filter (upserted oc) items) s)"
proof (induction items arbitrary: count s)
  case Nil
  then show ?case by (simp add: List.map_filter_simps upsert_all_Nil)
next
  case (Cons item items)
  obtain name v where item: "item = (name, v)" by (cases item)
  from Cons.prems have rest: "\<not> list_ex (raises oc) items" and here: "\<not> raises oc item"
    by simp_all
  note IH = Cons.IH [OF rest]
  show ?case
  proof (cases "importable v")
    case False
    then have up: "upserted oc item = None"
      by (cases v) (simp_all add: upserted_def item)
    have "import_items oc now (item # items) count s = import_items oc now items count s"
      unfolding item using False by (rule import_items_skip)
    then show ?thesis
      by (simp only: IH map_filter_Cons_None [of "upserted oc" item, OF up])
  next
    case True
    then obtain d where v: "v = PDict d" by (cases v) (simp_all add: importable_def)
    let ?i = "dict_get d ''implication'' (PStr [])"
    let ?m = "dict_get d ''mitigation'' (PStr [])"
    from here True have nr: "oc name \<noteq> ConnectFails"
      by (simp add: raises_def item)
    from True have imp: "importable (PDict d)" by (simp add: v)
    note step = import_items_call [OF imp, of oc now name items count s]
    show ?thesis
    proof (cases "oc name = Ok \<and> bind_text ?i \<noteq> None \<and> bind_text ?m \<noteq> None")
      case ok: True
      then obtain i' m' where b: "bind_text ?i = Some i'" "bind_text ?m = Some m'" by auto
      have up: "upserted oc item = Some (name, i', m')"
        using imp ok b by (simp add: upserted_def item v)
      have add: "add_to_kb_db (oc name) now name ?i ?m s =
          Inr (True, s\<lparr>rows := upsert_row now name i' m' (rows s)\<rparr>)"
        using ok b by (simp add: add_to_kb_db_def)
      have "import_items oc now (item # items) count s =
          import_items oc now items (count + 1) (s\<lparr>rows := upsert_row now name i' m' (rows s)\<rparr>)"
        unfolding item v step add by simp
      then show ?thesis
        by (simp only: IH map_filter_Cons_Some [of "upserted oc" item, OF up] upsert_all_Cons) simp
    next
      case bad: False
      have up: "upserted oc item = None"
        using bad by (auto simp add: upserted_def item v split: option.splits)
      have add: "add_to_kb_db (oc name) now name ?i ?m s = Inr (False, s)"
        using bad nr by (cases "oc name") (auto simp: add_to_kb_db_def split: option.splits)
      have "import_items oc now (item # items) count s = import_items oc now items count s"
        unfolding item v step add by simp
      then show ?thesis
        by (simp only: IH map_filter_Cons_None [of "upserted oc" item, OF up])
    qed
  qed
qed

lemma import_items_raise:
  "list_ex (raises oc) items \<Longrightarrow> \<exists>e. fst (import_items oc now items count s) = Inl e"
proof (induction items arbitrary: count s)
  case Nil
  then show ?case by simp
next
  case (Cons item items)
  obtain name v where item: "item = (name, v)" by (cases item)
  from Cons.prems have pr: "raises oc item \<or> list_ex (raises oc) items" by simp
  show ?case
  proof (cases "importable v")
    case False
    then have "\<not> raises oc item" by (simp add: raises_def item)
    with pr have rest: "list_ex (raises oc) items" by simp
    have "import_items oc now (item # items) count s = import_items oc now items count s"
      unfolding item using False by (rule import_items_skip)
    then show ?thesis using Cons.IH [OF rest] by simp
  next
    case True
    then obtain d where v: "v = PDict d" by (cases v) (simp_all add: importable_def)
    from True have imp: "importable (PDict d)" by (simp add: v)
    note step = import_items_call [OF imp, of oc now name items count s]
    show ?thesis
    proof (cases "oc name = ConnectFails")
      case c: True
      have "import_items oc now (item # items) count s = (Inl OperationalError, s)"
        unfolding item v step using c by (simp add: add_to_kb_db_def)
      then show ?thesis by simp
    next
      case False
      then have "\<not> raises oc item" by (simp add: raises_def item)
      with pr have rest: "list_ex (raises oc) items" by simp
      from False obtain ok s' where add:
        "add_to_kb_db (oc name) now name (dict_get d ''implication'' (PStr []))
           (dict_get d ''mitigation'' (PStr [])) s = Inr (ok, s')"
        using add_to_kb_db_returns by blast
      have "import_items oc now (item # items) count s =
          import_items oc now items (if ok then count + 1 else count) s'"
        unfolding item v step add by simp
      then show ?thesis using Cons.IH [OF rest] by simp
    qed
  qed
qed

lemma usage_of_import_items:
  "usage_of name (rows s) = Some n \<Longrightarrow>
   usage_of name (rows (snd (import_items oc now items count s))) = Some n"
proof (induction items arbitrary: count s)
  case Nil
  then show ?case by simp
next
  case (Cons item items)
  obtain name' v where item: "item = (name', v)" by (cases item)
  show ?case
  proof (cases v)
    case (PDict d)
    let ?i = "dict_get d ''implication'' (PStr [])"
    let ?m = "dict_get d ''mitigation'' (PStr [])"
    show ?thesis
    proof (cases "truthy ?i \<and> truthy ?m")
      case False
      then have "import_items oc now (item # items) count s = import_items oc now items count s"
        by (auto simp add: item PDict Let_def)
      with Cons show ?thesis by simp
    next
      case True
      show ?thesis
      proof (cases "add_to_kb_db (oc name') now name' ?i ?m s")
        case (Inl e)
        with True have "import_items oc now (item # items) count s = (Inl e, s)"
          by (simp add: item PDict Let_def)
        with Cons.prems show ?thesis by simp
      next
        case (Inr p)
        obtain ok s' where p: "p = (ok, s')" by (cases p)
        have "usage_of name (rows s') = Some n"
          using Cons.prems Inr p by (auto intro: usage_of_add)
        then have "usage_of name (rows (snd (import_items oc now items (if ok then count + 1 else count) s'))) = Some n"
          by (rule Cons.IH)
        moreover have "import_items oc now (item # items) count s =
            import_items oc now items (if ok then count + 1 else count) s'"
          using True Inr p by (simp add: item PDict Let_def)
        ultimately show ?thesis by simp
      qed
    qed
  qed (use Cons in \<open>simp_all add: item\<close>)
qed

lemma usage_of_import:
  "usage_of name (rows s) = Some n \<Longrightarrow>
   usage_of name (rows (snd (import_kb_from_json oc now json_data s))) = Some n"
proof -
  assume u: "usage_of name (rows s) = Some n"
  show ?thesis
  proof (cases "loads json_data")
    case (Inl e)
    with u show ?thesis by (simp add: import_kb_from_json_def dict_items_def)
  next
    case (Inr v)
    show ?thesis
    proof (cases v)
      case (PDict items)
      have "usage_of name (rows (snd (import_items oc now items 0 s))) = Some n"
        using u by (rule usage_of_import_items)
      with Inr PDict show ?thesis
        by (auto simp: import_kb_from_json_def dict_items_def split: prod.splits sum.splits)
    qed (use Inr u in \<open>simp_all add: import_kb_from_json_def dict_items_def\<close>)
  qed
qed

lemma upserted_export:
  "impl d \<noteq> [] \<Longrightarrow> mitg d \<noteq> [] \<Longrightarrow>
   upserted always_ok (k, details_to_py d) = Some (k, impl d, mitg d)"
  by (simp add: always_ok_def upserted_def importable_def details_to_py_def dict_get_def)

lemma map_filter_export:
  "nonempty_texts kb \<Longrightarrow>
   List.map_filter (upserted always_ok) (map (\<lambda>(k, d). (k, details_to_py d)) kb) =
   map (\<lambda>(k, d). (k, impl d, mitg d)) kb"
proof (induction kb)
  case Nil
  then show ?case by (simp add: List.map_filter_simps)
next
  case (Cons e kb)
  obtain k d where e: "e = (k, d)" by (cases e)
  from Cons.prems have "impl d \<noteq> []" "mitg d \<noteq> []" and rest: "nonempty_texts kb"
    by (simp_all add: nonempty_texts_def e)
  then have "upserted always_ok (k, details_to_py d) = Some (k, impl d, mitg d)"
    by (simp add: upserted_export)
  with Cons.IH [OF rest] show ?case
    by (simp add: e List.map_filter_simps)
qed

lemma no_raise_Ok: "\<not> list_ex (raises always_ok) items"
  by (induction items) (simp_all add: raises_def always_ok_def)

lemma roundtrip_kb:
  assumes "fst (load_kb_from_db now s) = kb"
    and "distinct (map fst kb)" and "nonempty_texts kb"
  shows "\<exists>s'. import_kb_from_json always_ok now' (Str (fst (export_kb_to_json now s))) empty_store
                = (length kb, s') \<and>
              fst (load_kb_from_db t s') = kb"
proof -
  let ?items = "map (\<lambda>(k, d). (k, details_to_py d)) kb"
  let ?es = "map (\<lambda>(k, d). (k, impl d, mitg d)) kb"
  let ?s' = "upsert_all now' ?es empty_store"
  have ex: "fst (export_kb_to_json now s) = Some (PDict ?items)"
    using assms(1) by (cases "load_kb_from_db now s") (simp add: export_kb_to_json_def dumps_def)
  have imp: "import_kb_from_json always_ok now' (Str (fst (export_kb_to_json now s))) empty_store
             = (length kb, ?s')"
    by (simp add: ex import_kb_from_json_def dict_items_def loads_def import_items_no_raise [OF no_raise_Ok]
        map_filter_export [OF assms(3)])
  have k: "map fst ?es = map fst kb" by (simp add: case_prod_unfold)
  have "foldl (\<lambda>rs (name, i, m). upsert_row now' name i m rs) [] ?es = [] @ map (new_row now') ?es"
    by (rule foldl_upsert_fresh) (simp_all only: k assms(2), simp)
  then have r: "rows ?s' = map (new_row now') ?es"
    by (simp add: upsert_all_def empty_store_def)
  have c: "\<not> served_from_cache t ?s'"
    by (simp add: served_from_cache_def upsert_all_def empty_store_def)
  have "read_kb (map (new_row now') ?es) = map (\<lambda>(name, i, m). (name, \<lparr>impl = i, mitg = m\<rparr>)) ?es"
    by (rule read_kb_new) (simp only: k assms(2))
  also have "\<dots> = kb" by (induction kb) (simp_all add: case_prod_unfold details_eta)
  finally have "fst (load_kb_from_db t ?s') = kb"
    by (simp add: load_not_cached [OF c] r)
  with imp show ?thesis by blast
qed

subsection \<open>The master table\<close>

lemma filter_nonempty_iff: "(filter P xs \<noteq> []) = list_ex P xs"
  by (induction xs) auto

lemma add_groups_eq:
  "add_groups cs findings table =
   table @ concat (map (group_rows findings) (filter (has_findings findings) cs))"
  by (induction cs arbitrary: table)
     (simp_all add: Let_def filter_nonempty_iff has_findings_def group_rows_def)

lemma group_headers_append: "group_headers (xs @ ys) = group_headers xs @ group_headers ys"
  by (induction xs rule: group_headers.induct) simp_all

lemma group_headers_finding_rows: "group_headers (map finding_row fs) = []"
  by (induction fs) (simp_all add: finding_row_def Let_def)

lemma group_headers_groups:
  "group_headers (concat (map (group_rows findings) cs)) = cs"
  by (induction cs) (simp_all add: group_rows_def group_headers_append group_headers_finding_rows)

subsection \<open>Resolution of the texts of a finding\<close>








subsection \<open>File name\<close>

lemma allowed_space: "c \<in> set allowed_chars \<Longrightarrow> is_space c = (c = CHR '' '')"
  by (auto simp: allowed_chars_def lower_chars_def upper_chars_def is_space_def whitespace_def)

lemma dropWhile_cong_set: "(\<And>x. x \<in> set xs \<Longrightarrow> P x = Q x) \<Longrightarrow> dropWhile P xs = dropWhile Q xs"
  by (induction xs) auto

lemma strip_allowed:
  assumes "set s \<subseteq> set allowed_chars"
  shows "strip s = trim_spaces s"
proof -
  have a: "dropWhile is_space s = dropWhile (\<lambda>c. c = CHR '' '') s"
    using assms by (intro dropWhile_cong_set allowed_space) auto
  have "set (rev (dropWhile (\<lambda>c. c = CHR '' '') s)) \<subseteq> set allowed_chars"
    using assms set_dropWhileD by fastforce
  then have "dropWhile is_space (rev (dropWhile (\<lambda>c. c = CHR '' '') s)) =
      dropWhile (\<lambda>c. c = CHR '' '') (rev (dropWhile (\<lambda>c. c = CHR '' '') s))"
    by (intro dropWhile_cong_set allowed_space) auto
  with a show ?thesis by (simp add: strip_def trim_spaces_def)
qed

section \<open>The claims\<close>

text \<open>
  C1 (as amended). For every issue name, after \<^verbatim>\<open>add_to_kb_db\<close> succeeds, a call of
  \<^verbatim>\<open>load_kb_from_db\<close> that is not answered from the one-hour cache returns a mapping
  with exactly one entry under that name, holding the implication and mitigation just
  passed; and an upsert repeated with the same arguments leaves the mapping returned by
  \<^verbatim>\<open>load_kb_from_db\<close> unchanged.
\<close>

theorem upsert_then_uncached_get_all:
  assumes "\<not> served_from_cache t s"
  shows "\<exists>s'. add_to_kb_db Ok now name (PStr i) (PStr m) s = Inr (True, s') \<and>
           filter (\<lambda>e. fst e = name) (fst (load_kb_from_db t s')) = [(name, \<lparr>impl = i, mitg = m\<rparr>)] \<and>
           (\<exists>s''. add_to_kb_db Ok now' name (PStr i) (PStr m) s' = Inr (True, s'') \<and>
                  fst (load_kb_from_db t' s'') = fst (load_kb_from_db t' s'))"
proof -
  let ?s' = "s\<lparr>rows := upsert_row now name i m (rows s)\<rparr>"
  let ?s'' = "?s'\<lparr>rows := upsert_row now' name i m (rows ?s')\<rparr>"
  have c: "\<not> served_from_cache t ?s'"
    using assms by (simp add: served_from_cache_def)
  have one: "filter (\<lambda>e. fst e = name) (fst (load_kb_from_db t ?s')) = [(name, \<lparr>impl = i, mitg = m\<rparr>)]"
    by (simp add: load_not_cached [OF c] read_kb_upsert)
  have "map core (rows ?s'') = map core (rows ?s')"
    using upsert_row_same_core [of name "upsert_row now name i m (rows s)" i m now']
      upsert_row_names [of name now i m "rows s"] upsert_row_values [of _ now name i m "rows s"]
    by simp
  then have "read_kb (rows ?s'') = read_kb (rows ?s')"
    by (rule read_kb_cong)
  then have two: "fst (load_kb_from_db t' ?s'') = fst (load_kb_from_db t' ?s')"
    by (intro load_cong) simp_all
  show ?thesis
    using one two add_to_kb_db_ok by blast
qed

theorem upsert_then_uncached_get_all_witness:
  "\<not> served_from_cache 7 empty_store \<and>
   (\<exists>s'. add_to_kb_db Ok 3 ''XSS'' (PStr ''a'') (PStr ''b'') empty_store = Inr (True, s') \<and>
         filter (\<lambda>e. fst e = ''XSS'') (fst (load_kb_from_db 7 s')) = [(''XSS'', \<lparr>impl = ''a'', mitg = ''b''\<rparr>)] \<and>
         (\<exists>s''. add_to_kb_db Ok 4 ''XSS'' (PStr ''a'') (PStr ''b'') s' = Inr (True, s'') \<and>
                fst (load_kb_from_db 9 s'') = fst (load_kb_from_db 9 s')))"
proof -
  have h: "\<not> served_from_cache 7 empty_store"
    by (simp add: served_from_cache_def empty_store_def)
  show ?thesis
    using h upsert_then_uncached_get_all [OF h, of 3 "''XSS''" "''a''" "''b''" 4 9] by simp
qed

text \<open>
  C1 as stated fails: the mapping is read on an empty store at time 0 and cached, issue
  A is then saved at time 1, and the read at time 2 is answered from the cache and has
  no entry for A.
\<close>

theorem upsert_then_cached_get_all_counterexample:
  "snd (load_kb_from_db 0 empty_store) = \<lparr>rows = [], cache = Some (0, [])\<rparr> \<and>
   add_to_kb_db Ok 1 ''A'' (PStr ''x'') (PStr ''y'') \<lparr>rows = [], cache = Some (0, [])\<rparr> =
     Inr (True, \<lparr>rows = [\<lparr>issue_name = ''A'', implication = ''x'', mitigation = ''y'',
                          created_at = 1, updated_at = 1, usage_count = 0\<rparr>],
                 cache = Some (0, [])\<rparr>) \<and>
   fst (load_kb_from_db 2 \<lparr>rows = [\<lparr>issue_name = ''A'', implication = ''x'', mitigation = ''y'',
                          created_at = 1, updated_at = 1, usage_count = 0\<rparr>],
                 cache = Some (0, [])\<rparr>) = []"
  by (simp add: add_to_kb_db_def load_kb_from_db_def empty_store_def read_kb_def
      select_by_usage_def upsert_row_def ttl_def)




text \<open>
  C4. For every state of the store, \<^verbatim>\<open>search_kb_db\<close> returns the empty list when the
  query is empty or has fewer than 3 characters.
\<close>

theorem search_short_query_empty:
  "length query < 3 \<Longrightarrow> search_kb_db fl ratio query top_n s = []"
  by (simp add: search_kb_db_def)

theorem search_short_query_empty_witness:
  "length ''ab'' < 3 \<and> search_kb_db rational_ops eq_ratio ''ab'' 5 demo_store = []"
  using search_short_query_empty [of "''ab''" rational_ops eq_ratio 5 demo_store] by simp

text \<open>
  C5 (as amended). For an issue name in the store whose counter \<open>n\<close> lies in the 64-bit
  range with \<open>n + 1\<close> below 2^63, two calls of \<^verbatim>\<open>increment_kb_usage\<close> in one session that
  has not yet credited the name raise the stored counter by exactly 1, also when the
  session credited another name before, and one call in each of two such sessions
  raises it by exactly 2. For every counter, no operation lowers it: a call of
  \<^verbatim>\<open>increment_kb_usage\<close> for any name in any session never makes it smaller,
  \<^verbatim>\<open>add_to_kb_db\<close> and \<^verbatim>\<open>import_kb_from_json\<close> leave it as it is, and
  \<^verbatim>\<open>load_kb_from_db\<close> does not write the table.
\<close>

theorem usage_counting:
  assumes "usage_of name (rows s) = Some n"
  shows "(- (2 ^ 63) \<le> n \<and> n + 1 < 2 ^ 63 \<and> session_key name \<notin> ss \<and> session_key name \<notin> ss'
            \<and> other \<noteq> name \<longrightarrow>
          usage_of name (rows (snd (increment_kb_usage name (increment_kb_usage name (ss, s)))))
            = Some (n + 1)
        \<and> usage_of name (rows (snd (increment_kb_usage name (increment_kb_usage other (ss, s)))))
            = Some (n + 1)
        \<and> usage_of name (rows (snd (increment_kb_usage name
              (ss', snd (increment_kb_usage name (ss, s)))))) = Some (n + 2))
       \<and> (case usage_of name (rows (snd (increment_kb_usage name' (ss'', s)))) of
            Some n' \<Rightarrow> n \<le> n'
          | None \<Rightarrow> False)
       \<and> (case add_to_kb_db oc now name' i m s of
            Inr (ok, s') \<Rightarrow> usage_of name (rows s') = Some n
          | Inl e \<Rightarrow> True)
       \<and> usage_of name (rows (snd (import_kb_from_json ocs now json_data s))) = Some n
       \<and> rows (snd (load_kb_from_db now s)) = rows s"
proof (intro conjI impI)
  assume b: "- (2 ^ 63) \<le> n \<and> n + 1 < 2 ^ 63 \<and> session_key name \<notin> ss \<and> session_key name \<notin> ss'
            \<and> other \<noteq> name"
  then have i1: "sql_incr n = n + 1" and i2: "sql_incr (n + 1) = n + 2"
    by (simp_all add: sql_incr_def)
  from b have ne: "name \<noteq> other" by auto
  then have k: "session_key name \<noteq> session_key other"
    by (simp add: session_key_def)
  show "usage_of name (rows (snd (increment_kb_usage name (increment_kb_usage name (ss, s)))))
            = Some (n + 1)"
    using assms b by (simp add: increment_kb_usage_def usage_of_bump i1)
  show "usage_of name (rows (snd (increment_kb_usage name (increment_kb_usage other (ss, s)))))
            = Some (n + 1)"
    using assms b k ne by (simp add: increment_kb_usage_def usage_of_bump i1)
  show "usage_of name (rows (snd (increment_kb_usage name
              (ss', snd (increment_kb_usage name (ss, s)))))) = Some (n + 2)"
    using assms b by (simp add: increment_kb_usage_def usage_of_bump i1 i2)
next
  have "n \<le> sql_incr n" by (simp add: sql_incr_def)
  then show "case usage_of name (rows (snd (increment_kb_usage name' (ss'', s)))) of
            Some n' \<Rightarrow> n \<le> n'
          | None \<Rightarrow> False"
    using assms by (simp add: increment_kb_usage_def usage_of_bump)
next
  show "case add_to_kb_db oc now name' i m s of
            Inr (ok, s') \<Rightarrow> usage_of name (rows s') = Some n
          | Inl e \<Rightarrow> True"
    using assms by (auto split: sum.splits intro: usage_of_add)
next
  show "usage_of name (rows (snd (import_kb_from_json ocs now json_data s))) = Some n"
    using assms by (rule usage_of_import)
next
  show "rows (snd (load_kb_from_db now s)) = rows s"
    by (simp add: load_kb_from_db_def split: option.splits)
qed

theorem usage_counting_witness:
  "usage_of ''Open port'' (rows demo_store) = Some 25 \<and>
   (- (2 ^ 63) \<le> (25::int) \<and> (25::int) + 1 < 2 ^ 63 \<and> session_key ''Open port'' \<notin> {}
      \<and> ''Weak TLS'' \<noteq> ''Open port'') \<and>
   usage_of ''Open port'' (rows (snd (increment_kb_usage ''Open port''
      (increment_kb_usage ''Open port'' ({}, demo_store))))) = Some 26 \<and>
   usage_of ''Open port'' (rows (snd (increment_kb_usage ''Open port''
      (increment_kb_usage ''Weak TLS'' ({}, demo_store))))) = Some 26 \<and>
   usage_of ''Open port'' (rows (snd (increment_kb_usage ''Open port''
      ({}, snd (increment_kb_usage ''Open port'' ({}, demo_store)))))) = Some 27"
proof -
  have h1: "usage_of ''Open port'' (rows demo_store) = Some 25"
    by (simp add: usage_of_def demo_store_def demo_rows_def)
  have h2: "- (2 ^ 63) \<le> (25::int) \<and> (25::int) + 1 < 2 ^ 63 \<and> session_key ''Open port'' \<notin> {}
      \<and> session_key ''Open port'' \<notin> {} \<and> ''Weak TLS'' \<noteq> ''Open port''"
    by simp
  show ?thesis
    using h1 h2 usage_counting [OF h1, of "{}" "{}" "''Weak TLS''"] by simp
qed

text \<open>
  C5 as stated fails on a counter that holds the largest 64-bit integer: the call of the
  first session turns it into the REAL 2^63, the call of the second session leaves that
  value as it is, so the two sessions raise it by 1, not by 2.
\<close>

theorem usage_overflow_counterexample:
  "usage_of ''Open port'' (rows full_store) = Some 9223372036854775807 \<and>
   session_key ''Open port'' \<notin> {} \<and>
   usage_of ''Open port'' (rows (snd (increment_kb_usage ''Open port''
      ({}, snd (increment_kb_usage ''Open port'' ({}, full_store)))))) = Some 9223372036854775808"
  by (simp add: usage_of_def full_store_def increment_kb_usage_def session_key_def bump_usage_def
      sql_incr_def)

text \<open>
  C6 (as amended). For every state of the store whose rows have a non-empty implication
  and mitigation, whatever their usage counts, when the export is not answered from the
  one-hour cache, exporting and then importing the exported text into an empty store,
  with a storage layer that works, imports every entry and makes
  \<^verbatim>\<open>load_kb_from_db\<close> on the new store return the mapping of the original one, in the
  same order.
\<close>

theorem export_import_roundtrip:
  assumes "\<not> served_from_cache now s" and "nonempty_rows (rows s)"
  shows "\<exists>s'. import_kb_from_json always_ok now' (Str (fst (export_kb_to_json now s))) empty_store
                = (length (read_kb (rows s)), s') \<and>
              fst (load_kb_from_db t s') = read_kb (rows s)"
  using roundtrip_kb [OF load_not_cached [OF assms(1)] read_kb_distinct nonempty_read_kb [OF assms(2)]] .

theorem export_import_roundtrip_witness:
  "\<not> served_from_cache 0 demo_store \<and> nonempty_rows (rows demo_store) \<and>
   read_kb (rows demo_store) = demo_kb \<and>
   (\<exists>s'. import_kb_from_json always_ok 5 (Str (fst (export_kb_to_json 0 demo_store))) empty_store
            = (length (read_kb (rows demo_store)), s') \<and>
          fst (load_kb_from_db 9 s') = read_kb (rows demo_store))"
proof -
  have h1: "\<not> served_from_cache 0 demo_store"
    by (simp add: served_from_cache_def demo_store_def)
  have h2: "nonempty_rows (rows demo_store)"
    by (simp add: nonempty_rows_def demo_store_def demo_rows_def)
  have v: "read_kb (rows demo_store) = demo_kb"
    by (simp add: demo_store_def demo_rows_def demo_kb_def read_kb_def select_by_usage_def kb_put_def)
  show ?thesis
    using h1 h2 v export_import_roundtrip [OF h1 h2, of 5 9] by blast
qed

text \<open>
  C6 as stated fails: the mapping is read on an empty store at time 0 and cached, issue
  A is saved at time 1, and the export at time 2 is the cached empty mapping; importing
  it leaves the new store empty, while the original store maps A to its texts.
\<close>

theorem export_of_cached_mapping_counterexample:
  "snd (load_kb_from_db 0 empty_store) = \<lparr>rows = [], cache = Some (0, [])\<rparr> \<and>
   add_to_kb_db Ok 1 ''A'' (PStr ''x'') (PStr ''y'') \<lparr>rows = [], cache = Some (0, [])\<rparr> =
     Inr (True, \<lparr>rows = [\<lparr>issue_name = ''A'', implication = ''x'', mitigation = ''y'',
                          created_at = 1, updated_at = 1, usage_count = 0\<rparr>],
                 cache = Some (0, [])\<rparr>) \<and>
   read_kb [\<lparr>issue_name = ''A'', implication = ''x'', mitigation = ''y'',
             created_at = 1, updated_at = 1, usage_count = 0\<rparr>] = [(''A'', \<lparr>impl = ''x'', mitg = ''y''\<rparr>)] \<and>
   fst (export_kb_to_json 2 \<lparr>rows = [\<lparr>issue_name = ''A'', implication = ''x'', mitigation = ''y'',
                          created_at = 1, updated_at = 1, usage_count = 0\<rparr>],
                 cache = Some (0, [])\<rparr>) = Some (PDict []) \<and>
   import_kb_from_json always_ok 3 (Str (Some (PDict []))) empty_store = (0, empty_store) \<and>
   fst (load_kb_from_db 4 empty_store) = []"
  by (simp add: add_to_kb_db_def load_kb_from_db_def empty_store_def read_kb_def
      select_by_usage_def upsert_row_def ttl_def kb_put_def export_kb_to_json_def dumps_def
      import_kb_from_json_def dict_items_def loads_def)

text \<open>
  C7. For every input mapping, when no call of \<^verbatim>\<open>add_to_kb_db\<close> raises,
  \<^verbatim>\<open>import_kb_from_json\<close> upserts, in order, exactly the entries that are a dict with
  non-empty implication and mitigation and whose upsert succeeds, passes over every
  other entry without stopping, and returns the number of entries upserted.
\<close>

theorem import_counts_upserts:
  assumes "loads json_data = Inr (PDict items)" and "\<not> list_ex (raises oc) items"
  shows "import_kb_from_json oc now json_data s =
           (length (List.map_filter (upserted oc) items),
            upsert_all now (List.map_filter (upserted oc) items) s)"
  using assms by (simp add: import_kb_from_json_def dict_items_def import_items_no_raise)

theorem import_counts_upserts_witness:
  "loads (Obj (PDict demo_items)) = Inr (PDict demo_items) \<and>
   \<not> list_ex (raises always_ok) demo_items \<and>
   List.map_filter (upserted always_ok) demo_items = [(''A'', ''x'', ''y''), (''D'', ''p'', ''q'')] \<and>
   import_kb_from_json always_ok 1 (Obj (PDict demo_items)) empty_store =
     (length (List.map_filter (upserted always_ok) demo_items),
      upsert_all 1 (List.map_filter (upserted always_ok) demo_items) empty_store) \<and>
   fst (import_kb_from_json always_ok 1 (Obj (PDict demo_items)) empty_store) = 2"
proof -
  have h1: "loads (Obj (PDict demo_items)) = Inr (PDict demo_items)"
    by (simp add: loads_def)
  have h2: "\<not> list_ex (raises always_ok) demo_items"
    by (rule no_raise_Ok)
  have v: "List.map_filter (upserted always_ok) demo_items = [(''A'', ''x'', ''y''), (''D'', ''p'', ''q'')]"
    by (simp add: demo_items_def entry_def List.map_filter_simps upserted_def importable_def
        dict_get_def always_ok_def)
  note t = import_counts_upserts [OF h1 h2, of 1 empty_store]
  have "fst (import_kb_from_json always_ok 1 (Obj (PDict demo_items)) empty_store) = 2"
    unfolding t v by simp
  with h1 h2 v t show ?thesis by blast
qed

text \<open>
  C8. For every list of findings, the findings master table is the header row followed
  by one group for each classification that has findings, in the fixed order Mobile
  Application Vulnerability, Server Vulnerabilities, Web Vulnerabilities; a
  classification without findings has no group row; a group is its classification row
  followed by one row for each finding of that classification.
\<close>

theorem master_table_groups:
  "add_findings_master_table findings =
     HeaderRow # concat (map (group_rows findings)
       (filter (has_findings findings)
          [''Mobile Application Vulnerability'', ''Server Vulnerabilities'', ''Web Vulnerabilities'']))
   \<and> group_headers (add_findings_master_table findings) =
       filter (has_findings findings)
         [''Mobile Application Vulnerability'', ''Server Vulnerabilities'', ''Web Vulnerabilities'']"
  by (simp add: add_findings_master_table_def add_groups_eq group_headers_groups classifications_def
      del: filter.simps)

text \<open>
  C9 (as amended). For every application name, the file name is the name with every
  character outside \<^verbatim>\<open>[0-9a-zA-Z-_ ]\<close> removed, then leading and trailing spaces removed,
  then every remaining space replaced by an underscore, followed by \<^verbatim>\<open>_v1.0.docx\<close>;
  the name \<^verbatim>\<open>My App! 2024\<close> gives the base \<^verbatim>\<open>My_App_2024\<close>.
\<close>

theorem filename_sanitised:
  "generate_report_filename app_name = trimmed_filename app_name \<and>
   generate_report_filename ''My App! 2024'' = ''My_App_2024'' @ ''_v1.0.docx''"
proof
  have "strip (keep_allowed app_name) = trim_spaces (keep_allowed app_name)"
    by (rule strip_allowed) (auto simp: keep_allowed_def)
  then show "generate_report_filename app_name = trimmed_filename app_name"
    by (simp add: generate_report_filename_def safe_name_def trimmed_filename_def version_def keep_allowed_def)
  show "generate_report_filename ''My App! 2024'' = ''My_App_2024'' @ ''_v1.0.docx''"
    by (simp add: generate_report_filename_def safe_name_def version_def allowed_chars_def lower_chars_def
        upper_chars_def strip_def is_space_def whitespace_def replace_spaces_def)
qed

text \<open>
  C9 as stated fails on a name that ends in a space: the trailing space is removed, not
  replaced by an underscore.
\<close>

theorem filename_trailing_space_counterexample:
  "generate_report_filename ''My App '' = ''My_App_v1.0.docx'' \<and>
   claimed_filename ''My App '' = ''My_App__v1.0.docx''"
  by (simp add: generate_report_filename_def safe_name_def version_def allowed_chars_def lower_chars_def
        upper_chars_def strip_def is_space_def whitespace_def replace_spaces_def claimed_filename_def
        keep_allowed_def)

text \<open>
  C10. When the input of \<^verbatim>\<open>import_kb_from_json\<close> is a text that is not JSON, or is not
  a dict, or a call of \<^verbatim>\<open>add_to_kb_db\<close> raises while the entries are processed, the
  function returns 0, whatever number of entries was upserted before.
\<close>

theorem import_failure_returns_zero:
  assumes "loads json_data = Inl e
           \<or> (loads json_data = Inr v \<and> \<not> is_dict v)
           \<or> (loads json_data = Inr (PDict items) \<and> list_ex (raises oc) items)"
  shows "fst (import_kb_from_json oc now json_data s) = 0"
  using assms
proof (elim disjE conjE)
  assume "loads json_data = Inl e"
  then show ?thesis by (simp add: import_kb_from_json_def dict_items_def)
next
  assume "loads json_data = Inr v" and "\<not> is_dict v"
  then show ?thesis by (cases v) (simp_all add: import_kb_from_json_def dict_items_def is_dict_def)
next
  assume a: "loads json_data = Inr (PDict items)" and r: "list_ex (raises oc) items"
  from r obtain e' where "fst (import_items oc now items 0 s) = Inl e'"
    using import_items_raise by blast
  with a show ?thesis
    by (cases "import_items oc now items 0 s") (simp add: import_kb_from_json_def dict_items_def)
qed

theorem import_failure_returns_zero_witness:
  "(loads (Obj (PDict demo_items)) = Inl JSONDecodeError
    \<or> (loads (Obj (PDict demo_items)) = Inr PNone \<and> \<not> is_dict PNone)
    \<or> (loads (Obj (PDict demo_items)) = Inr (PDict demo_items) \<and> list_ex (raises fails_on_D) demo_items)) \<and>
   fst (import_kb_from_json fails_on_D 1 (Obj (PDict demo_items)) empty_store) = 0 \<and>
   map issue_name (rows (snd (import_kb_from_json fails_on_D 1 (Obj (PDict demo_items)) empty_store))) = [''A'']"
proof -
  have h: "loads (Obj (PDict demo_items)) = Inl JSONDecodeError
    \<or> (loads (Obj (PDict demo_items)) = Inr PNone \<and> \<not> is_dict PNone)
    \<or> (loads (Obj (PDict demo_items)) = Inr (PDict demo_items) \<and> list_ex (raises fails_on_D) demo_items)"
    by (simp add: loads_def demo_items_def entry_def raises_def importable_def dict_get_def fails_on_D_def)
  have v: "map issue_name (rows (snd (import_kb_from_json fails_on_D 1 (Obj (PDict demo_items)) empty_store))) = [''A'']"
    by (simp add: import_kb_from_json_def dict_items_def loads_def demo_items_def entry_def dict_get_def
        fails_on_D_def add_to_kb_db_def upsert_row_def empty_store_def)
  show ?thesis
    using h v import_failure_returns_zero [OF h, of 1 empty_store] by blast
qed

end
